theory Spec2Isabelle
  imports Main
begin

section \<open>Strings\<close>

text \<open>
  The program is \<^verbatim>\<open>app.py\<close>: a topic, a list of section titles and a list of section
  texts are laid out as a slide deck. Python strings are modelled as \<^typ>\<open>string\<close>
  (one \<^typ>\<open>char\<close> per character of the Latin-1 range).
\<close>

definition star :: char where
  "star = CHR ''*''"

definition newline :: char where
  "newline = CHR 0x0A"

text \<open>
  \<^verbatim>\<open>s.split("\n")\<close>: cuts at every newline, so the result has one element more than
  the text has newlines, and the empty text gives one empty line.
\<close>

fun split_nl :: "string \<Rightarrow> string list" where
  "split_nl [] = [[]]"
| "split_nl (c # cs) =
     (if c = newline then [] # split_nl cs
      else (c # hd (split_nl cs)) # tl (split_nl cs))"

text \<open>\<^verbatim>\<open>"\n".join(xs)\<close>.\<close>

fun join_nl :: "string list \<Rightarrow> string" where
  "join_nl [] = []"
| "join_nl [x] = x"
| "join_nl (x # y # ys) = x @ newline # join_nl (y # ys)"

section \<open>clean\_text\<close>

text \<open>
  \<^verbatim>\<open>re.sub(r'\*\*(.*?)\*\*', r'\1', text)\<close>.
  After an opening pair of stars the lazy group grows one character at a time: at each
  position the closing pair is tried first, and only when it is not there does the dot
  take the next character, which it refuses when that character is a newline.
  \<open>find_close\<close> is that search on the text behind the opening pair; it gives the group
  and the text behind the closing pair.
\<close>

fun find_close :: "string \<Rightarrow> (string \<times> string) option" where
  "find_close [] = None"
| "find_close (c # cs) =
     (if c = star \<and> cs \<noteq> [] \<and> hd cs = star then Some ([], tl cs)
      else if c = newline then None
      else (case find_close cs of
              None \<Rightarrow> None
            | Some (g, r) \<Rightarrow> Some (c # g, r)))"

lemma find_close_shorter:
  "find_close s = Some (g, r) \<Longrightarrow> length r < length s"
proof (induction s arbitrary: g)
  case Nil
  then show ?case by simp
next
  case (Cons c cs)
  show ?case
  proof (cases "c = star \<and> cs \<noteq> [] \<and> hd cs = star")
    case True
    with Cons.prems have "r = tl cs" by simp
    with True show ?thesis by (cases cs) simp_all
  next
    case False
    with Cons.prems obtain g' where "find_close cs = Some (g', r)"
      by (auto split: if_splits option.splits)
    from Cons.IH [OF this] show ?thesis by simp
  qed
qed

text \<open>
  The substitution scans from the left. Where a match starts, the match is replaced by
  its group and the scan goes on behind the match; elsewhere the character is copied.
\<close>

function clean_text :: "string \<Rightarrow> string" where
  "clean_text [] = []"
| "clean_text (c # cs) =
     (if c = star \<and> cs \<noteq> [] \<and> hd cs = star
      then (case find_close (tl cs) of
              Some (g, r) \<Rightarrow> g @ clean_text r
            | None \<Rightarrow> c # clean_text cs)
      else c # clean_text cs)"
  by pat_completeness auto
termination
proof (relation "measure length")
  show "wf (measure length)" by simp
next
  fix c :: char and cs :: string and x2 :: "string \<times> string" and g r :: string
  assume "c = star \<and> cs \<noteq> [] \<and> hd cs = star"
    and "find_close (tl cs) = Some x2" and "(g, r) = x2"
  then have "length r < length (tl cs)"
    using find_close_shorter [of "tl cs" g r] by simp
  then show "(r, c # cs) \<in> measure length" by simp
qed simp_all

section \<open>split\_content\_into\_slides\<close>

definition MAX_BULLETS_PER_SLIDE :: nat where
  "MAX_BULLETS_PER_SLIDE = 6"

text \<open>
  One round of the loop over the paragraphs. The state is the pair of the two lists the
  source mutates: \<open>slides\<close> and \<open>current_slide\<close>.
\<close>

definition paginate_step :: "string list \<times> string list \<Rightarrow> string \<Rightarrow> string list \<times> string list" where
  "paginate_step st para0 =
     (let slides = fst st; current_slide = snd st; para = clean_text para0
      in if length current_slide < MAX_BULLETS_PER_SLIDE
         then (slides, current_slide @ [para])
         else (slides @ [join_nl current_slide], [para]))"

definition split_content_into_slides :: "string \<Rightarrow> string list" where
  "split_content_into_slides content =
     (let paragraphs = split_nl content;
          st = foldl paginate_step ([], []) paragraphs;
          slides = fst st; current_slide = snd st
      in if current_slide \<noteq> [] then slides @ [join_nl current_slide] else slides)"

section \<open>The presentation objects\<close>

text \<open>
  The objects of the presentation library that \<^verbatim>\<open>create_presentation\<close> touches. A
  length is a number of English Metric Units; \<^verbatim>\<open>Pt\<close> converts points.

  The texts the presentation holds are lists of code points: the upper case of a Latin-1
  character can lie outside Latin-1. \<open>cp\<close> gives the code points of a string.
\<close>

definition Pt :: "nat \<Rightarrow> nat" where
  "Pt n = n * 12700"

definition TITLE_FONT_SIZE :: nat where
  "TITLE_FONT_SIZE = Pt 30"

definition SLIDE_FONT_SIZE :: nat where
  "SLIDE_FONT_SIZE = Pt 16"

type_synonym ustr = "nat list"

definition cp :: "string \<Rightarrow> ustr" where
  "cp s = map of_char s"

text \<open>
  The library stores the text of a run with every control character from 0 to 8 and
  from 12 to 31 replaced by the seven characters \<^verbatim>\<open>_xHHHH_\<close>, \<^verbatim>\<open>HHHH\<close> being the code point
  in upper-case hexadecimal, and reads the stored text back as it is. Tab, newline and
  vertical tab are not replaced.
\<close>

definition escaped :: "nat \<Rightarrow> bool" where
  "escaped n = (n \<le> 8 \<or> (12 \<le> n \<and> n \<le> 31))"

definition hex_digit :: "nat \<Rightarrow> nat" where
  "hex_digit d = (if d < 10 then 48 + d else 55 + d)"

definition escape_char :: "nat \<Rightarrow> ustr" where
  "escape_char n =
     (if escaped n
      then [95, 120, hex_digit (n div 4096 mod 16), hex_digit (n div 256 mod 16),
            hex_digit (n div 16 mod 16), hex_digit (n mod 16), 95]
      else [n])"

definition escape_ctrl_chars :: "ustr \<Rightarrow> ustr" where
  "escape_ctrl_chars s = concat (map escape_char s)"

text \<open>
  \<^verbatim>\<open>paragraph.text = s\<close> cuts \<open>s\<close> at every newline and vertical tab into runs with a line
  break between them; a line break reads back as a vertical tab. \<open>paragraph_text s\<close> is
  what \<^verbatim>\<open>paragraph.text\<close> reads afterwards.
\<close>

definition paragraph_text :: "ustr \<Rightarrow> ustr" where
  "paragraph_text s = escape_ctrl_chars (map (\<lambda>n. if n = 10 then 11 else n) s)"

text \<open>Cutting a text at its newlines (code point 10) and joining texts with newlines.\<close>

fun lines_of :: "ustr \<Rightarrow> ustr list" where
  "lines_of [] = [[]]"
| "lines_of (n # ns) =
     (if n = 10 then [] # lines_of ns
      else (n # hd (lines_of ns)) # tl (lines_of ns))"

fun unlines :: "ustr list \<Rightarrow> ustr" where
  "unlines [] = []"
| "unlines [x] = x"
| "unlines (x # y # ys) = x @ 10 # unlines (y # ys)"

text \<open>
  A paragraph carries its text and the properties the program assigns; \<open>None\<close> is a
  property that was never assigned (the value is then inherited from the layout).
\<close>

datatype PP_ALIGN = LEFT

record para =
  ptext :: ustr
  font_size :: "nat option"
  font_bold :: "bool option"
  space_after :: "nat option"
  level :: nat
  alignment :: "PP_ALIGN option"

definition new_paragraph :: para where
  "new_paragraph =
     \<lparr>ptext = [], font_size = None, font_bold = None, space_after = None, level = 0,
      alignment = None\<rparr>"

text \<open>
  A shape is a placeholder here, known by its placeholder index: 0 is the title, 1 the
  subtitle of a title slide or the body of a content slide. Its text frame is its list
  of paragraphs.
\<close>

record shape =
  ph_idx :: nat
  has_text_frame :: bool
  paragraphs :: "para list"

datatype layout = Title_Slide_layout | Title_and_Content_layout

record slide =
  slide_layout :: layout
  shapes :: "shape list"

text \<open>
  \<^verbatim>\<open>prs.slides.add_slide(layout)\<close> gives a slide with a copy of the two placeholders of
  either layout, each with one empty paragraph.
\<close>

definition new_placeholder :: "nat \<Rightarrow> shape" where
  "new_placeholder i = \<lparr>ph_idx = i, has_text_frame = True, paragraphs = [new_paragraph]\<rparr>"

definition new_slide :: "layout \<Rightarrow> slide" where
  "new_slide l = \<lparr>slide_layout = l, shapes = [new_placeholder 0, new_placeholder 1]\<rparr>"

text \<open>An assignment through \<^verbatim>\<open>slide.shapes.title\<close> or \<^verbatim>\<open>slide.shapes.placeholders[i]\<close>.\<close>

definition on_placeholder :: "nat \<Rightarrow> (shape \<Rightarrow> shape) \<Rightarrow> slide \<Rightarrow> slide" where
  "on_placeholder i f s =
     s\<lparr>shapes := map (\<lambda>sh. if ph_idx sh = i then f sh else sh) (shapes s)\<rparr>"

definition placeholder :: "nat \<Rightarrow> slide \<Rightarrow> shape option" where
  "placeholder i s = find (\<lambda>sh. ph_idx sh = i) (shapes s)"

text \<open>
  \<^verbatim>\<open>shape.text = s\<close> replaces the paragraphs by one new paragraph for each line of \<open>s\<close>,
  whose text is assigned as above; reading \<^verbatim>\<open>shape.text\<close> joins the paragraphs' texts with
  newlines.
\<close>

definition set_text :: "ustr \<Rightarrow> shape \<Rightarrow> shape" where
  "set_text s sh =
     sh\<lparr>paragraphs := map (\<lambda>l. new_paragraph\<lparr>ptext := paragraph_text l\<rparr>) (lines_of s)\<rparr>"

definition get_text :: "shape \<Rightarrow> ustr" where
  "get_text sh = unlines (map ptext (paragraphs sh))"

text \<open>
  An assignment to \<^verbatim>\<open>paragraphs[0]\<close>. The list is never empty where the program does it:
  the text of the title has just been assigned, which leaves at least one paragraph.
\<close>

definition on_first_paragraph :: "(para \<Rightarrow> para) \<Rightarrow> shape \<Rightarrow> shape" where
  "on_first_paragraph f sh =
     sh\<lparr>paragraphs := (case paragraphs sh of [] \<Rightarrow> [] | p # ps \<Rightarrow> f p # ps)\<rparr>"

text \<open>\<^verbatim>\<open>text_frame.clear()\<close> keeps the first paragraph only and removes its text.\<close>

definition clear :: "shape \<Rightarrow> shape" where
  "clear sh =
     sh\<lparr>paragraphs := (case paragraphs sh of [] \<Rightarrow> [] | p # ps \<Rightarrow> [p\<lparr>ptext := []\<rparr>])\<rparr>"

section \<open>create\_presentation\<close>

text \<open>
  \<^verbatim>\<open>str.strip()\<close> removes the white space at both ends. \<^verbatim>\<open>str.upper()\<close> on Latin-1: the
  letters \<^verbatim>\<open>a\<close> to \<^verbatim>\<open>z\<close> and those from 224 to 254 but the division sign (247) move down by
  32; the sharp s (223) becomes \<^verbatim>\<open>SS\<close>; the micro sign (181) becomes the Greek capital mu
  (924) and the y with diaeresis (255) its capital (376); every other character stays.
\<close>

definition is_space :: "char \<Rightarrow> bool" where
  "is_space c =
     (let n = (of_char c :: nat)
      in (9 \<le> n \<and> n \<le> 13) \<or> (28 \<le> n \<and> n \<le> 32) \<or> n = 133 \<or> n = 160)"

definition strip :: "string \<Rightarrow> string" where
  "strip s = rev (dropWhile is_space (rev (dropWhile is_space s)))"

definition upper_char :: "char \<Rightarrow> ustr" where
  "upper_char c =
     (let n = (of_char c :: nat)
      in if 97 \<le> n \<and> n \<le> 122 then [n - 32]
         else if n = 181 then [924]
         else if n = 223 then [83, 83]
         else if 224 \<le> n \<and> n \<le> 254 \<and> n \<noteq> 247 then [n - 32]
         else if n = 255 then [376]
         else [n])"

definition upper :: "string \<Rightarrow> ustr" where
  "upper s = concat (map upper_char s)"

text \<open>
  The title slide (lines 69 to 71 of the source): the text of the title is the topic in
  upper case, and its first paragraph is made bold. No size is assigned.
\<close>

definition title_slide :: "string \<Rightarrow> slide" where
  "title_slide topic =
     (let s0 = new_slide Title_Slide_layout;
          s1 = on_placeholder 0 (set_text (upper topic)) s0;
          s2 = on_placeholder 0 (on_first_paragraph (\<lambda>p. p\<lparr>font_bold := Some True\<rparr>)) s1
      in s2)"

text \<open>The loop over the bullets of one chunk (lines 84 to 90).\<close>

definition add_bullet :: "shape \<Rightarrow> string \<Rightarrow> shape" where
  "add_bullet text_frame bullet =
     (if strip bullet \<noteq> []
      then text_frame\<lparr>paragraphs := paragraphs text_frame @
             [new_paragraph\<lparr>ptext := paragraph_text (cp (strip bullet)),
                space_after := Some (Pt 8), level := 0, alignment := Some LEFT\<rparr>]\<rparr>
      else text_frame)"

text \<open>
  The body of the inner loop, in the order of the source: the heading (line 79), the
  bullets (lines 81 to 90), the size of the title's first paragraph (line 92).
\<close>

definition content_slide_filled :: "string \<Rightarrow> bool \<Rightarrow> string \<Rightarrow> slide" where
  "content_slide_filled slide_title first_slide content =
     (let s0 = new_slide Title_and_Content_layout;
          s1 = on_placeholder 0
                 (set_text (cp (if first_slide then slide_title
                                else slide_title @ '' (contd.)''))) s0;
          s2 = on_placeholder 1 (\<lambda>text_frame. foldl add_bullet (clear text_frame) (split_nl content)) s1;
          s3 = on_placeholder 0
                 (on_first_paragraph (\<lambda>p. p\<lparr>font_size := Some TITLE_FONT_SIZE\<rparr>)) s2
      in s3)"

text \<open>
  Then the loop over all the shapes of the slide (lines 93 to 96): every paragraph of
  every shape with a text frame gets the body size. The title placeholder is one of the
  shapes.
\<close>

definition set_slide_font_size :: "slide \<Rightarrow> slide" where
  "set_slide_font_size s =
     s\<lparr>shapes := map (\<lambda>sh. if has_text_frame sh
                             then sh\<lparr>paragraphs :=
                                    map (\<lambda>p. p\<lparr>font_size := Some SLIDE_FONT_SIZE\<rparr>) (paragraphs sh)\<rparr>
                             else sh) (shapes s)\<rparr>"

definition content_slide :: "string \<Rightarrow> bool \<Rightarrow> string \<Rightarrow> slide" where
  "content_slide slide_title first_slide content =
     set_slide_font_size (content_slide_filled slide_title first_slide content)"

text \<open>
  The inner loop over the chunks of one section and the outer loop over the pairs of
  \<^verbatim>\<open>zip(slide_titles, slide_contents)\<close>. The presentation is the list of its slides; a new
  slide goes to the end. The flag \<open>first_slide\<close> is cleared at the end of every round.
\<close>

fun add_content_slides :: "string \<Rightarrow> bool \<Rightarrow> string list \<Rightarrow> slide list \<Rightarrow> slide list" where
  "add_content_slides slide_title first_slide [] prs = prs"
| "add_content_slides slide_title first_slide (content # content_slides) prs =
     add_content_slides slide_title False content_slides
       (prs @ [content_slide slide_title first_slide content])"

fun add_sections :: "(string \<times> string) list \<Rightarrow> slide list \<Rightarrow> slide list" where
  "add_sections [] prs = prs"
| "add_sections ((slide_title, slide_content) # rest) prs =
     add_sections rest
       (add_content_slides slide_title True (split_content_into_slides slide_content) prs)"

text \<open>
  The file name (lines 100 to 102): \<^verbatim>\<open>topic.replace(' ', '_')\<close> and \<^verbatim>\<open>os.path.join\<close> in
  its POSIX form, where a second component that starts with a slash replaces the first.
\<close>

fun replace_char :: "char \<Rightarrow> char \<Rightarrow> string \<Rightarrow> string" where
  "replace_char old new [] = []"
| "replace_char old new (c # cs) = (if c = old then new else c) # replace_char old new cs"

definition os_path_join :: "string \<Rightarrow> string \<Rightarrow> string" where
  "os_path_join a b =
     (if b \<noteq> [] \<and> hd b = CHR ''/'' then b
      else if a = [] \<or> last a = CHR ''/'' then a @ b
      else a @ CHR ''/'' # b)"

text \<open>
  The two calls that reach the operating system: \<^verbatim>\<open>os.makedirs(d, exist_ok=True)\<close> and
  \<^verbatim>\<open>prs.save(f)\<close>. Either can raise, and whether it does is for the operating system to
  say: it is a parameter \<open>os\<close>, which for a call and a state of the world gives the
  exception raised, if any, and the world afterwards.
\<close>

datatype os_call = Makedirs string bool | Save string "slide list"

type_synonym ('w, 'e) os = "os_call \<Rightarrow> 'w \<Rightarrow> 'e option \<times> 'w"

text \<open>
  A run of \<^verbatim>\<open>create_presentation\<close>: the presentation built by lines 64 to 98, the
  outcome (the exception that left the function, or the path line 104 returns) and the
  world afterwards. An exception of \<^verbatim>\<open>os.makedirs\<close> leaves the function before the deck is
  saved, one of \<^verbatim>\<open>prs.save\<close> before anything is returned.
\<close>

record ('w, 'e) run =
  prs :: "slide list"
  outcome :: "'e + string"
  world :: 'w

definition create_presentation ::
  "('w, 'e) os \<Rightarrow> 'w \<Rightarrow> string \<Rightarrow> string list \<Rightarrow> string list \<Rightarrow> ('w, 'e) run" where
  "create_presentation os w topic slide_titles slide_contents =
     (let deck = add_sections (zip slide_titles slide_contents) [title_slide topic];
          output_dir = ''generated_ppt''
      in case os (Makedirs output_dir True) w of
           (Some e, w1) \<Rightarrow> \<lparr>prs = deck, outcome = Inl e, world = w1\<rparr>
         | (None, w1) \<Rightarrow>
             (let ppt_filename = os_path_join output_dir
                    (replace_char CHR '' '' CHR ''_'' topic @ ''_presentation.pptx'')
              in case os (Save ppt_filename deck) w1 of
                   (Some e, w2) \<Rightarrow> \<lparr>prs = deck, outcome = Inl e, world = w2\<rparr>
                 | (None, w2) \<Rightarrow> \<lparr>prs = deck, outcome = Inr ppt_filename, world = w2\<rparr>))"

text \<open>
  A small file system for the examples: a world is the directories and the files there
  are. \<^verbatim>\<open>makedirs\<close> raises where the path is a file (or an existing directory, without
  \<^verbatim>\<open>exist_ok\<close>); \<^verbatim>\<open>save\<close> raises on a path with a NUL character and on one whose directory
  does not exist.
\<close>

datatype os_error = FileExistsError | FileNotFoundError | ValueError

record fs =
  dirs :: "string list"
  files :: "(string \<times> slide list) list"

definition dirname :: "string \<Rightarrow> string" where
  "dirname p =
     (let head = rev (dropWhile (\<lambda>c. c \<noteq> CHR ''/'') (rev p))
      in if head \<noteq> [] \<and> filter (\<lambda>c. c \<noteq> CHR ''/'') head \<noteq> []
         then rev (dropWhile (\<lambda>c. c = CHR ''/'') (rev head))
         else head)"

fun example_os :: "(fs, os_error) os" where
  "example_os (Makedirs d exist_ok) w =
     (if d \<in> set (map fst (files w)) then (Some FileExistsError, w)
      else if d \<in> set (dirs w) then (if exist_ok then (None, w) else (Some FileExistsError, w))
      else (None, w\<lparr>dirs := d # dirs w\<rparr>))"
| "example_os (Save p deck) w =
     (if CHR 0x00 \<in> set p then (Some ValueError, w)
      else if dirname p \<noteq> [] \<and> dirname p \<notin> set (dirs w) then (Some FileNotFoundError, w)
      else (None, w\<lparr>files := (p, deck) # files w\<rparr>))"

text \<open>
  The slides one section adds to the deck, and what is read from a slide: its heading
  (\<^verbatim>\<open>slide.shapes.title.text\<close>), the paragraphs of its title and of its body, and the
  texts of the latter.
\<close>

definition section_slides :: "string \<Rightarrow> string \<Rightarrow> slide list" where
  "section_slides slide_title slide_content =
     add_content_slides slide_title True (split_content_into_slides slide_content) []"

definition heading :: "slide \<Rightarrow> ustr" where
  "heading s = (case placeholder 0 s of None \<Rightarrow> [] | Some sh \<Rightarrow> get_text sh)"

definition body_paragraphs :: "slide \<Rightarrow> para list" where
  "body_paragraphs s = (case placeholder 1 s of None \<Rightarrow> [] | Some sh \<Rightarrow> paragraphs sh)"

definition title_paragraphs :: "slide \<Rightarrow> para list" where
  "title_paragraphs s = (case placeholder 0 s of None \<Rightarrow> [] | Some sh \<Rightarrow> paragraphs sh)"

definition slide_texts :: "slide \<Rightarrow> ustr \<times> ustr list" where
  "slide_texts s = (heading s, map ptext (body_paragraphs s))"

text \<open>
  What a section is to look like in the deck, in the words of the specification: one
  slide for each chunk of the paginator, in its order; the heading is the section title
  for the first chunk and the title followed by \<^verbatim>\<open> (contd.)\<close> for the others, as the
  library stores it; the body is the empty paragraph that clearing leaves, followed by
  one paragraph for each line of the chunk that is not blank, stripped.
\<close>

definition expected_heading :: "string \<Rightarrow> nat \<Rightarrow> ustr" where
  "expected_heading slide_title i =
     escape_ctrl_chars (cp (if i = 0 then slide_title else slide_title @ '' (contd.)''))"

definition expected_body :: "string \<Rightarrow> ustr list" where
  "expected_body chunk =
     [] # map (\<lambda>b. paragraph_text (cp (strip b))) (filter (\<lambda>b. strip b \<noteq> []) (split_nl chunk))"

definition expected_section :: "string \<Rightarrow> string \<Rightarrow> (ustr \<times> ustr list) list" where
  "expected_section slide_title slide_content =
     map (\<lambda>(i, chunk). (expected_heading slide_title i, expected_body chunk))
       (enumerate 0 (split_content_into_slides slide_content))"

section \<open>Properties of clean\_text\<close>

text \<open>
  A group that \<open>find_close\<close> returns never holds a pair of stars and never ends in a
  star: such a text is copied as it is when the substitution runs over it again.
\<close>

fun plain :: "string \<Rightarrow> bool" where
  "plain [] = True"
| "plain (c # cs) = (if c = star then cs \<noteq> [] \<and> hd cs \<noteq> star \<and> plain cs else plain cs)"

lemma clean_text_copy:
  "c \<noteq> star \<or> cs = [] \<or> hd cs \<noteq> star \<Longrightarrow> clean_text (c # cs) = c # clean_text cs"
  by auto

lemma clean_text_unclosed:
  "find_close (tl cs) = None \<Longrightarrow> clean_text (c # cs) = c # clean_text cs"
  by simp

lemma clean_text_match:
  "find_close s = Some (g, r) \<Longrightarrow> clean_text (star # star # s) = g @ clean_text r"
  by simp

lemma find_close_plain: "find_close s = Some (g, r) \<Longrightarrow> plain g"
proof (induction s arbitrary: g)
  case Nil
  then show ?case by simp
next
  case (Cons c cs)
  show ?case
  proof (cases "c = star \<and> cs \<noteq> [] \<and> hd cs = star")
    case True
    with Cons.prems show ?thesis by simp
  next
    case False
    with Cons.prems obtain g' where fc: "find_close cs = Some (g', r)" and g: "g = c # g'"
      by (auto split: if_splits option.splits)
    have pg': "plain g'" using Cons.IH [OF fc] .
    show ?thesis
    proof (cases "c = star")
      case notstar: False
      with g pg' show ?thesis by simp
    next
      case True
      with False have "cs = [] \<or> hd cs \<noteq> star" by auto
      with fc obtain d ds where cs: "cs = d # ds" and d: "d \<noteq> star"
        by (cases cs) auto
      from fc cs d have "g' \<noteq> [] \<and> hd g' = d"
        by (auto split: if_splits option.splits)
      with g pg' d True show ?thesis by simp
    qed
  qed
qed

lemma clean_text_plain_append: "plain g \<Longrightarrow> clean_text (g @ s) = g @ clean_text s"
proof (induction g)
  case Nil
  then show ?case by simp
next
  case (Cons c g)
  show ?case
  proof (cases "c = star")
    case False
    with Cons show ?thesis by simp
  next
    case True
    with Cons.prems obtain d ds where g: "g = d # ds" and d: "d \<noteq> star" and pg: "plain g"
      by (cases g) auto
    with Cons.IH True show ?thesis by simp
  qed
qed

lemma clean_text_head: "s = [] \<or> hd s \<noteq> star \<Longrightarrow> clean_text s = [] \<or> hd (clean_text s) \<noteq> star"
  by (cases s) auto

lemma find_close_star_None: "find_close (star # s) = None \<Longrightarrow> find_close s = None"
  by (cases s) (auto split: if_splits option.splits simp: star_def newline_def)

lemma find_close_None_clean: "find_close s = None \<Longrightarrow> find_close (clean_text s) = None"
proof (induction s)
  case Nil
  then show ?case by simp
next
  case (Cons c cs)
  from Cons.prems have nm: "\<not> (c = star \<and> cs \<noteq> [] \<and> hd cs = star)"
    by (auto split: if_splits)
  then have ct: "clean_text (c # cs) = c # clean_text cs"
    using clean_text_copy [of c cs] by blast
  show ?case
  proof (cases "c = newline")
    case True
    with ct nm show ?thesis by (auto simp: star_def newline_def)
  next
    case False
    with Cons.prems nm have "find_close cs = None"
      by (auto split: if_splits option.splits)
    then have ih: "find_close (clean_text cs) = None" by (rule Cons.IH)
    from nm have "c \<noteq> star \<or> cs = [] \<or> hd cs \<noteq> star" by auto
    then have "c \<noteq> star \<or> clean_text cs = [] \<or> hd (clean_text cs) \<noteq> star"
      using clean_text_head [of cs] by auto
    with ct ih False show ?thesis by auto
  qed
qed

text \<open>
  Claim C5. \<open>clean_text\<close> is idempotent: cleaning a cleaned text changes nothing, for
  every text.
\<close>

theorem clean_text_idempotent: "clean_text (clean_text x) = clean_text x"
proof (induction x rule: clean_text.induct)
  case 1
  show ?case by simp
next
  case (2 c cs)
  show ?case
  proof (cases "c = star \<and> cs \<noteq> [] \<and> hd cs = star")
    case False
    then have ct: "clean_text (c # cs) = c # clean_text cs"
      using clean_text_copy [of c cs] by blast
    from False have ih: "clean_text (clean_text cs) = clean_text cs" by (rule "2.IH"(3))
    from False have "c \<noteq> star \<or> clean_text cs = [] \<or> hd (clean_text cs) \<noteq> star"
      using clean_text_head [of cs] by auto
    then have "clean_text (c # clean_text cs) = c # clean_text (clean_text cs)"
      by (rule clean_text_copy)
    with ct ih show ?thesis by simp
  next
    case True
    show ?thesis
    proof (cases "find_close (tl cs)")
      case None
      with True have ct: "clean_text (c # cs) = c # clean_text cs" by simp
      from True None have ih: "clean_text (clean_text cs) = clean_text cs" by (rule "2.IH"(1))
      from True obtain rest where cs: "cs = star # rest" by (cases cs) auto
      with None have fr: "find_close rest = None" by simp
      then have "find_close (tl rest) = None \<or> rest = [] \<or> hd rest \<noteq> star"
        using find_close_star_None [of "tl rest"] by (cases rest) auto
      then have ccs: "clean_text cs = star # clean_text rest" using cs 
        by (cases rest) auto
      from fr have "find_close (clean_text rest) = None" by (rule find_close_None_clean)
      with True ccs have "clean_text (c # clean_text cs) = c # clean_text (clean_text cs)"
        by simp
      with ct ih show ?thesis by simp
    next
      case (Some p)
      obtain g r where p: "p = (g, r)" by (cases p)
      with True Some have ct: "clean_text (c # cs) = g @ clean_text r" by simp
      have ih: "clean_text (clean_text r) = clean_text r"
        by (rule "2.IH"(2) [OF True Some p [symmetric]])
      from Some p have "plain g" using find_close_plain by simp
      then show ?thesis using ct ih by (simp add: clean_text_plain_append)
    qed
  qed
qed

section \<open>Properties of split\_content\_into\_slides\<close>

text \<open>
  The partition the loop is compared with: successive groups of \<open>n\<close> elements, the last
  one with what is left.
\<close>

function groups_of :: "nat \<Rightarrow> 'a list \<Rightarrow> 'a list list" where
  "groups_of n xs = (if xs = [] \<or> n = 0 then [] else take n xs # groups_of n (drop n xs))"
  by pat_completeness auto
termination
  by (relation "measure (\<lambda>(n, xs). length xs)") auto

declare groups_of.simps [simp del]

lemma groups_of_Nil: "groups_of n [] = []"
  by (simp add: groups_of.simps)

lemma groups_of_short: "xs \<noteq> [] \<Longrightarrow> length xs \<le> n \<Longrightarrow> groups_of n xs = [xs]"
  by (subst groups_of.simps) (cases xs, auto simp: groups_of_Nil)

lemma groups_of_append: "length xs = n \<Longrightarrow> 0 < n \<Longrightarrow> groups_of n (xs @ ys) = xs # groups_of n ys"
  by (subst groups_of.simps) auto

lemma concat_groups_of: "0 < n \<Longrightarrow> concat (groups_of n xs) = xs"
proof (induction n xs rule: groups_of.induct)
  case (1 n xs)
  show ?case
  proof (cases "xs = []")
    case True
    then show ?thesis by (simp add: groups_of_Nil)
  next
    case False
    with 1 have "concat (groups_of n (drop n xs)) = drop n xs" by simp
    with False 1(2) show ?thesis by (subst groups_of.simps) simp
  qed
qed

lemma groups_of_chunks: "0 < n \<Longrightarrow> c \<in> set (groups_of n xs) \<Longrightarrow> c \<noteq> [] \<and> length c \<le> n \<and> set c \<subseteq> set xs"
proof (induction n xs rule: groups_of.induct)
  case (1 n xs)
  show ?case
  proof (cases "xs = []")
    case True
    with 1(3) show ?thesis by (simp add: groups_of_Nil)
  next
    case False
    with 1(2,3) have "c = take n xs \<or> c \<in> set (groups_of n (drop n xs))"
      by (subst (asm) groups_of.simps) auto
    then show ?thesis
    proof
      assume "c = take n xs"
      with False 1(2) show ?thesis by (auto dest: in_set_takeD)
    next
      assume "c \<in> set (groups_of n (drop n xs))"
      with 1(1) False 1(2) have "c \<noteq> [] \<and> length c \<le> n \<and> set c \<subseteq> set (drop n xs)" by simp
      then show ?thesis by (auto dest: in_set_dropD)
    qed
  qed
qed

lemma groups_of_butlast: "0 < n \<Longrightarrow> c \<in> set (butlast (groups_of n xs)) \<Longrightarrow> length c = n"
proof (induction n xs rule: groups_of.induct)
  case (1 n xs)
  show ?case
  proof (cases "xs = []")
    case True
    with 1(3) show ?thesis by (simp add: groups_of_Nil)
  next
    case False
    then have eq: "groups_of n xs = take n xs # groups_of n (drop n xs)"
      using 1(2) by (subst groups_of.simps) simp
    show ?thesis
    proof (cases "groups_of n (drop n xs) = []")
      case True
      with eq 1(3) show ?thesis by simp
    next
      case ne: False
      then have "drop n xs \<noteq> []" by (auto simp: groups_of_Nil)
      then have len: "length (take n xs) = n" by simp
      from eq ne 1(3) have "c = take n xs \<or> c \<in> set (butlast (groups_of n (drop n xs)))" by simp
      then show ?thesis
      proof
        assume "c = take n xs" with len show ?thesis by simp
      next
        assume "c \<in> set (butlast (groups_of n (drop n xs)))"
        with 1(1) False 1(2) show ?thesis by simp
      qed
    qed
  qed
qed

text \<open>The flush behind the loop (lines 56 and 57), as a function of the loop's state.\<close>

definition finish :: "string list \<times> string list \<Rightarrow> string list" where
  "finish st = (if snd st \<noteq> [] then fst st @ [join_nl (snd st)] else fst st)"

lemma split_content_into_slides_finish:
  "split_content_into_slides content = finish (foldl paginate_step ([], []) (split_nl content))"
  by (simp add: split_content_into_slides_def finish_def Let_def)

lemma paginate_loop:
  "length cur \<le> MAX_BULLETS_PER_SLIDE \<Longrightarrow>
   finish (foldl paginate_step (sl, cur) ps) =
     sl @ map join_nl (groups_of MAX_BULLETS_PER_SLIDE (cur @ map clean_text ps))"
proof (induction ps arbitrary: sl cur)
  case Nil
  then show ?case
    by (cases "cur = []") (simp_all add: finish_def groups_of_Nil groups_of_short)
next
  case (Cons p ps)
  show ?case
  proof (cases "length cur < MAX_BULLETS_PER_SLIDE")
    case True
    then have step: "paginate_step (sl, cur) p = (sl, cur @ [clean_text p])"
      by (simp add: paginate_step_def)
    from True have "length (cur @ [clean_text p]) \<le> MAX_BULLETS_PER_SLIDE" by simp
    from Cons.IH [OF this, of sl] step show ?thesis by simp
  next
    case False
    with Cons.prems have len: "length cur = MAX_BULLETS_PER_SLIDE" by simp
    from False have step: "paginate_step (sl, cur) p = (sl @ [join_nl cur], [clean_text p])"
      by (simp add: paginate_step_def)
    have "length [clean_text p] \<le> MAX_BULLETS_PER_SLIDE" by (simp add: MAX_BULLETS_PER_SLIDE_def)
    from Cons.IH [OF this, of "sl @ [join_nl cur]"] step
    have "finish (foldl paginate_step (sl, cur) (p # ps)) =
        sl @ join_nl cur # map join_nl (groups_of MAX_BULLETS_PER_SLIDE (clean_text p # map clean_text ps))"
      by simp
    moreover have "groups_of MAX_BULLETS_PER_SLIDE (cur @ clean_text p # map clean_text ps) =
        cur # groups_of MAX_BULLETS_PER_SLIDE (clean_text p # map clean_text ps)"
      using len by (intro groups_of_append) (simp_all add: MAX_BULLETS_PER_SLIDE_def)
    ultimately show ?thesis by simp
  qed
qed

lemma split_content_into_slides_groups_of:
  "split_content_into_slides content =
     map join_nl (groups_of MAX_BULLETS_PER_SLIDE (map clean_text (split_nl content)))"
  using paginate_loop [of "[]" "[]" "split_nl content"]
  by (simp add: split_content_into_slides_finish)

lemma split_nl_nonempty: "split_nl s \<noteq> []"
  by (induction s) auto

lemma split_nl_line: "l \<in> set (split_nl s) \<Longrightarrow> newline \<notin> set l"
proof (induction s arbitrary: l)
  case Nil
  then show ?case by simp
next
  case (Cons c cs)
  have hd_in: "hd (split_nl cs) \<in> set (split_nl cs)"
    using split_nl_nonempty [of cs] by simp
  show ?case
  proof (cases "c = newline")
    case True
    with Cons show ?thesis by auto
  next
    case False
    with Cons.prems have "l = c # hd (split_nl cs) \<or> l \<in> set (tl (split_nl cs))" by simp
    then show ?thesis
    proof
      assume "l = c # hd (split_nl cs)"
      with False Cons.IH [OF hd_in] show ?thesis by simp
    next
      assume "l \<in> set (tl (split_nl cs))"
      then have "l \<in> set (split_nl cs)" by (rule list.set_sel(2) [OF split_nl_nonempty])
      then show ?thesis by (rule Cons.IH)
    qed
  qed
qed

lemma join_nl_Cons: "xs \<noteq> [] \<Longrightarrow> join_nl (x # xs) = x @ newline # join_nl xs"
  by (cases xs) auto

lemma join_split: "join_nl (split_nl s) = s"
proof (induction s)
  case Nil
  show ?case by simp
next
  case (Cons c cs)
  obtain l ls where sp: "split_nl cs = l # ls"
    using split_nl_nonempty [of cs] by (cases "split_nl cs") auto
  show ?case
  proof (cases "c = newline")
    case True
    with Cons sp show ?thesis by simp
  next
    case False
    with Cons sp show ?thesis by (cases ls) auto
  qed
qed

lemma split_nl_single: "newline \<notin> set x \<Longrightarrow> split_nl x = [x]"
  by (induction x) auto

lemma split_nl_append: "newline \<notin> set x \<Longrightarrow> split_nl (x @ newline # r) = x # split_nl r"
  by (induction x) auto

lemma split_join:
  "ls \<noteq> [] \<Longrightarrow> (\<And>l. l \<in> set ls \<Longrightarrow> newline \<notin> set l) \<Longrightarrow> split_nl (join_nl ls) = ls"
proof (induction ls rule: join_nl.induct)
  case 1
  then show ?case by simp
next
  case (2 x)
  then show ?case by (simp add: split_nl_single)
next
  case (3 x y ys)
  have "split_nl (join_nl (y # ys)) = y # ys"
    using 3 by simp
  moreover have "newline \<notin> set x" using 3(3) by simp
  ultimately show ?case by (simp add: split_nl_append)
qed

lemma find_close_set: "find_close s = Some (g, r) \<Longrightarrow> set g \<subseteq> set s \<and> set r \<subseteq> set s"
proof (induction s arbitrary: g)
  case Nil
  then show ?case by simp
next
  case (Cons c cs)
  show ?case
  proof (cases "c = star \<and> cs \<noteq> [] \<and> hd cs = star")
    case True
    with Cons.prems have "g = []" "r = tl cs" by simp_all
    then show ?thesis by (cases cs) auto
  next
    case False
    with Cons.prems obtain g' where fc: "find_close cs = Some (g', r)" and g: "g = c # g'"
      by (auto split: if_splits option.splits)
    from Cons.IH [OF fc] g show ?thesis by auto
  qed
qed

lemma clean_text_set: "set (clean_text s) \<subseteq> set s"
proof (induction s rule: clean_text.induct)
  case 1
  show ?case by simp
next
  case (2 c cs)
  show ?case
  proof (cases "c = star \<and> cs \<noteq> [] \<and> hd cs = star")
    case False
    then have "clean_text (c # cs) = c # clean_text cs"
      using clean_text_copy [of c cs] by blast
    with "2.IH"(3) [OF False] show ?thesis by auto
  next
    case True
    show ?thesis
    proof (cases "find_close (tl cs)")
      case None
      then have "clean_text (c # cs) = c # clean_text cs" by (rule clean_text_unclosed)
      with "2.IH"(1) [OF True None] show ?thesis by auto
    next
      case (Some p)
      obtain g r where p: "p = (g, r)" by (cases p)
      from True obtain rest where cs: "cs = star # rest" and c: "c = star" by (cases cs) auto
      from Some p cs have fc: "find_close rest = Some (g, r)" by simp
      then have ct: "clean_text (c # cs) = g @ clean_text r"
        using c cs by (simp add: clean_text_match)
      have "set (clean_text r) \<subseteq> set r"
        by (rule "2.IH"(2) [OF True Some p [symmetric]])
      with find_close_set [OF fc] ct cs show ?thesis by auto
    qed
  qed
qed

lemma clean_text_line: "newline \<notin> set s \<Longrightarrow> newline \<notin> set (clean_text s)"
  using clean_text_set [of s] by auto

lemma join_nl_append:
  "xs \<noteq> [] \<Longrightarrow> ys \<noteq> [] \<Longrightarrow> join_nl (xs @ ys) = join_nl xs @ newline # join_nl ys"
  by (induction xs rule: join_nl.induct) (auto simp: join_nl_Cons)

lemma join_nl_concat:
  "(\<And>c. c \<in> set cs \<Longrightarrow> c \<noteq> []) \<Longrightarrow> join_nl (map join_nl cs) = join_nl (concat cs)"
proof (induction cs)
  case Nil
  show ?case by simp
next
  case (Cons c cs)
  show ?case
  proof (cases "cs = []")
    case True
    then show ?thesis by simp
  next
    case False
    then obtain d ds where cs: "cs = d # ds" by (cases cs) auto
    with Cons.prems have "concat cs \<noteq> []" by auto
    moreover have "c \<noteq> []" using Cons.prems by simp
    moreover have "join_nl (map join_nl cs) = join_nl (concat cs)"
      using Cons by simp
    ultimately show ?thesis using False by (simp add: join_nl_Cons join_nl_append)
  qed
qed

lemma cleaned_lines: "l \<in> set (map clean_text (split_nl s)) \<Longrightarrow> newline \<notin> set l"
  using split_nl_line clean_text_line by fastforce

lemma chunk_lines:
  assumes "c \<in> set (groups_of MAX_BULLETS_PER_SLIDE (map clean_text (split_nl s)))"
  shows "split_nl (join_nl c) = c"
proof -
  have pos: "0 < MAX_BULLETS_PER_SLIDE" by (simp add: MAX_BULLETS_PER_SLIDE_def)
  from groups_of_chunks [OF pos assms]
  have ne: "c \<noteq> []" and sub: "set c \<subseteq> set (map clean_text (split_nl s))" by simp_all
  show ?thesis
  proof (rule split_join [OF ne])
    fix l assume "l \<in> set c"
    with sub have "l \<in> set (map clean_text (split_nl s))" by blast
    then show "newline \<notin> set l" by (rule cleaned_lines)
  qed
qed

lemma split_chunks:
  "map split_nl (split_content_into_slides s) =
     groups_of MAX_BULLETS_PER_SLIDE (map clean_text (split_nl s))"
  by (simp add: split_content_into_slides_groups_of chunk_lines map_idI)

text \<open>
  Claim C3. Pagination is a lossless, order-preserving partition: the lines of the chunks,
  one chunk after the other, are the cleaned lines of the input in their order, and the
  chunks joined with newlines are the cleaned lines joined with newlines.
\<close>

theorem split_content_lossless:
  "concat (map split_nl (split_content_into_slides s)) = map clean_text (split_nl s)
   \<and> join_nl (split_content_into_slides s) = join_nl (map clean_text (split_nl s))"
proof
  have pos: "0 < MAX_BULLETS_PER_SLIDE" by (simp add: MAX_BULLETS_PER_SLIDE_def)
  show "concat (map split_nl (split_content_into_slides s)) = map clean_text (split_nl s)"
    by (simp add: split_chunks concat_groups_of [OF pos])
  have "join_nl (split_content_into_slides s) =
      join_nl (concat (groups_of MAX_BULLETS_PER_SLIDE (map clean_text (split_nl s))))"
    unfolding split_content_into_slides_groups_of
    by (rule join_nl_concat) (use groups_of_chunks [OF pos] in blast)
  then show "join_nl (split_content_into_slides s) = join_nl (map clean_text (split_nl s))"
    by (simp add: concat_groups_of [OF pos])
qed

lemma groups_of_step: "0 < n \<Longrightarrow> n < length xs \<Longrightarrow> groups_of n xs = take n xs # groups_of n (drop n xs)"
  by (subst groups_of.simps) auto

lemma groups_of_14: "length xs = 14 \<Longrightarrow> map length (groups_of 6 xs) = [6, 6, 2]"
  by (simp add: groups_of_step groups_of_short)

lemma groups_of_7: "length xs = 7 \<Longrightarrow> map length (groups_of 6 xs) = [6, 1]"
  by (simp add: groups_of_step groups_of_short)

lemma chunk_sizes:
  "map (\<lambda>c. length (split_nl c)) (split_content_into_slides s) =
     map length (groups_of MAX_BULLETS_PER_SLIDE (map clean_text (split_nl s)))"
proof -
  have "map (\<lambda>c. length (split_nl c)) (split_content_into_slides s) =
      map length (map split_nl (split_content_into_slides s))" by simp
  then show ?thesis by (simp only: split_chunks)
qed

text \<open>
  Claim C4. Every chunk has at most 6 lines, every chunk but the last has exactly 6, and
  an input of 14 lines gives three chunks of 6, 6 and 2 lines.
\<close>

theorem split_content_chunk_sizes:
  "(\<forall>c \<in> set (split_content_into_slides s). length (split_nl c) \<le> 6)
   \<and> (\<forall>c \<in> set (butlast (split_content_into_slides s)). length (split_nl c) = 6)
   \<and> (length (split_nl s) = 14 \<longrightarrow>
        map (\<lambda>c. length (split_nl c)) (split_content_into_slides s) = [6, 6, 2])"
proof (intro conjI ballI impI)
  have pos: "0 < MAX_BULLETS_PER_SLIDE" by (simp add: MAX_BULLETS_PER_SLIDE_def)
  let ?L = "map clean_text (split_nl s)"
  {
    fix c assume "c \<in> set (split_content_into_slides s)"
    then have "split_nl c \<in> set (groups_of MAX_BULLETS_PER_SLIDE ?L)"
      using split_chunks [of s] by (metis image_eqI list.set_map)
    from groups_of_chunks [OF pos this] show "length (split_nl c) \<le> 6"
      by (simp add: MAX_BULLETS_PER_SLIDE_def)
  next
    fix c assume "c \<in> set (butlast (split_content_into_slides s))"
    then have "split_nl c \<in> set (butlast (groups_of MAX_BULLETS_PER_SLIDE ?L))"
      using split_chunks [of s] by (metis image_eqI list.set_map map_butlast)
    from groups_of_butlast [OF pos this] show "length (split_nl c) = 6"
      by (simp add: MAX_BULLETS_PER_SLIDE_def)
  next
    assume "length (split_nl s) = 14"
    then have "length ?L = 14" by simp
    then show "map (\<lambda>c. length (split_nl c)) (split_content_into_slides s) = [6, 6, 2]"
      unfolding chunk_sizes MAX_BULLETS_PER_SLIDE_def by (rule groups_of_14)
  }
qed

theorem split_content_chunk_sizes_witness:
  "length (split_nl ''a\<newline>b\<newline>c\<newline>d\<newline>e\<newline>f\<newline>g\<newline>h\<newline>i\<newline>j\<newline>k\<newline>l\<newline>m\<newline>n'') = 14
   \<and> map (\<lambda>c. length (split_nl c))
         (split_content_into_slides ''a\<newline>b\<newline>c\<newline>d\<newline>e\<newline>f\<newline>g\<newline>h\<newline>i\<newline>j\<newline>k\<newline>l\<newline>m\<newline>n'') = [6, 6, 2]"
proof -
  have h: "length (split_nl ''a\<newline>b\<newline>c\<newline>d\<newline>e\<newline>f\<newline>g\<newline>h\<newline>i\<newline>j\<newline>k\<newline>l\<newline>m\<newline>n'') = 14"
    by (simp add: newline_def)
  with split_content_chunk_sizes
    [of "''a\<newline>b\<newline>c\<newline>d\<newline>e\<newline>f\<newline>g\<newline>h\<newline>i\<newline>j\<newline>k\<newline>l\<newline>m\<newline>n''"]
  show ?thesis by blast
qed

section \<open>Properties of create\_presentation\<close>

subsection \<open>The loops\<close>

lemma add_content_slides_rest:
  "add_content_slides t False cs deck = deck @ map (content_slide t False) cs"
  by (induction cs arbitrary: deck) auto

lemma add_content_slides_eq:
  "add_content_slides t f cs deck =
     deck @ (case cs of [] \<Rightarrow> [] | c # r \<Rightarrow> content_slide t f c # map (content_slide t False) r)"
  by (cases cs) (simp_all add: add_content_slides_rest)

lemma split_content_into_slides_nonempty: "split_content_into_slides c \<noteq> []"
proof -
  obtain l ls where "map clean_text (split_nl c) = l # ls"
    using split_nl_nonempty [of c] by (cases "split_nl c") auto
  then have "groups_of MAX_BULLETS_PER_SLIDE (map clean_text (split_nl c)) \<noteq> []"
    by (subst groups_of.simps) (simp add: MAX_BULLETS_PER_SLIDE_def)
  then show ?thesis by (simp add: split_content_into_slides_groups_of)
qed

lemma enumerate_flags:
  "map (\<lambda>(i, ch). F (i = (0::nat)) ch) (enumerate (Suc n) xs) = map (F False) xs"
  by (induction xs arbitrary: n) auto

lemma section_slides_enumerate:
  "section_slides t c =
     map (\<lambda>(i, ch). content_slide t (i = 0) ch) (enumerate 0 (split_content_into_slides c))"
  using split_content_into_slides_nonempty [of c]
  by (cases "split_content_into_slides c")
     (simp_all add: section_slides_def add_content_slides_eq enumerate_flags)

lemma add_content_slides_append:
  "add_content_slides t f cs deck = deck @ add_content_slides t f cs []"
  by (simp add: add_content_slides_eq)

lemma add_sections_eq:
  "add_sections ps deck = deck @ concat (map (\<lambda>(t, c). section_slides t c) ps)"
proof (induction ps arbitrary: deck)
  case Nil
  show ?case by simp
next
  case (Cons p ps)
  obtain t c where p: "p = (t, c)" by (cases p)
  show ?case
    using add_content_slides_append [of t True "split_content_into_slides c" deck]
    by (simp add: p Cons.IH section_slides_def)
qed

lemma prs_create_presentation:
  "prs (create_presentation os w topic ts cs) =
     title_slide topic # concat (map (\<lambda>(t, c). section_slides t c) (zip ts cs))"
  by (simp add: create_presentation_def Let_def add_sections_eq split: prod.splits option.splits)

subsection \<open>The texts the library stores\<close>

lemma lines_of_nonempty: "lines_of s \<noteq> []"
  by (induction s) auto

lemma lines_of_line: "l \<in> set (lines_of s) \<Longrightarrow> 10 \<notin> set l"
proof (induction s arbitrary: l)
  case Nil
  then show ?case by simp
next
  case (Cons n ns)
  have hd_in: "hd (lines_of ns) \<in> set (lines_of ns)"
    using lines_of_nonempty [of ns] by simp
  show ?case
  proof (cases "n = 10")
    case True
    with Cons show ?thesis by auto
  next
    case False
    with Cons.prems have "l = n # hd (lines_of ns) \<or> l \<in> set (tl (lines_of ns))" by simp
    then show ?thesis
    proof
      assume "l = n # hd (lines_of ns)"
      with False Cons.IH [OF hd_in] show ?thesis by simp
    next
      assume "l \<in> set (tl (lines_of ns))"
      then have "l \<in> set (lines_of ns)" by (rule list.set_sel(2) [OF lines_of_nonempty])
      then show ?thesis by (rule Cons.IH)
    qed
  qed
qed

lemma paragraph_text_line: "10 \<notin> set l \<Longrightarrow> paragraph_text l = escape_ctrl_chars l"
proof -
  assume "10 \<notin> set l"
  then have "map (\<lambda>n. if n = 10 then 11 else n) l = l"
    by (induction l) auto
  then show ?thesis by (simp add: paragraph_text_def)
qed

lemma unlines_Cons: "xs \<noteq> [] \<Longrightarrow> unlines (x # xs) = x @ 10 # unlines xs"
  by (cases xs) auto

lemma unlines_prefix: "unlines ((a @ x) # xs) = a @ unlines (x # xs)"
  by (cases xs) auto

lemma escape_ctrl_chars_Cons: "escape_ctrl_chars (n # ns) = escape_char n @ escape_ctrl_chars ns"
  by (simp add: escape_ctrl_chars_def)

lemma escape_char_newline: "escape_char 10 = [10]"
  by (simp add: escape_char_def escaped_def)

lemma unlines_escape_lines: "unlines (map escape_ctrl_chars (lines_of s)) = escape_ctrl_chars s"
proof (induction s)
  case Nil
  show ?case by (simp add: escape_ctrl_chars_def)
next
  case (Cons n ns)
  obtain l ls where sp: "lines_of ns = l # ls"
    using lines_of_nonempty [of ns] by (cases "lines_of ns") auto
  show ?case
  proof (cases "n = 10")
    case True
    have "unlines (map escape_ctrl_chars (lines_of (n # ns))) =
        10 # unlines (map escape_ctrl_chars (lines_of ns))"
      using True sp by (simp add: escape_ctrl_chars_def)
    with Cons True show ?thesis by (simp add: escape_ctrl_chars_Cons escape_char_newline)
  next
    case False
    have "unlines (map escape_ctrl_chars (lines_of (n # ns))) =
        unlines ((escape_char n @ escape_ctrl_chars l) # map escape_ctrl_chars ls)"
      using False sp by (simp add: escape_ctrl_chars_Cons)
    also have "\<dots> = escape_char n @ unlines (map escape_ctrl_chars (lines_of ns))"
      using sp by (simp only: unlines_prefix list.map)
    finally show ?thesis using Cons by (simp add: escape_ctrl_chars_Cons)
  qed
qed

lemma unlines_paragraph_texts:
  "unlines (map paragraph_text (lines_of s)) = escape_ctrl_chars s"
proof -
  have "map paragraph_text (lines_of s) = map escape_ctrl_chars (lines_of s)"
    by (rule map_cong [OF refl]) (simp add: lines_of_line paragraph_text_line)
  then show ?thesis by (simp only: unlines_escape_lines)
qed


subsection \<open>The slides\<close>

lemma foldl_add_bullet_fields:
  "ph_idx (foldl add_bullet sh bs) = ph_idx sh \<and>
   has_text_frame (foldl add_bullet sh bs) = has_text_frame sh"
  by (induction bs arbitrary: sh) (auto simp: add_bullet_def)

text \<open>The paragraph the loop over the bullets adds for a bullet that is not blank.\<close>

definition bullet_paragraph :: "string \<Rightarrow> para" where
  "bullet_paragraph b =
     new_paragraph\<lparr>ptext := paragraph_text (cp (strip b)), space_after := Some (Pt 8),
       level := 0, alignment := Some LEFT\<rparr>"

lemma foldl_add_bullet_paragraphs:
  "paragraphs (foldl add_bullet sh bs) =
     paragraphs sh @ map bullet_paragraph (filter (\<lambda>b. strip b \<noteq> []) bs)"
  by (induction bs arbitrary: sh) (auto simp: add_bullet_def bullet_paragraph_def)

text \<open>The heading that line 79 assigns.\<close>

definition heading_text :: "string \<Rightarrow> bool \<Rightarrow> string" where
  "heading_text slide_title first_slide =
     (if first_slide then slide_title else slide_title @ '' (contd.)'')"

lemma content_slide_filled_shapes:
  "content_slide_filled t f ch =
     \<lparr>slide_layout = Title_and_Content_layout,
      shapes =
        [\<lparr>ph_idx = 0, has_text_frame = True,
          paragraphs =
            (case map (\<lambda>l. new_paragraph\<lparr>ptext := paragraph_text l\<rparr>)
                    (lines_of (cp (heading_text t f))) of
               [] \<Rightarrow> [] | p # ps \<Rightarrow> p\<lparr>font_size := Some TITLE_FONT_SIZE\<rparr> # ps)\<rparr>,
         \<lparr>ph_idx = 1, has_text_frame = True,
          paragraphs =
            new_paragraph # map bullet_paragraph (filter (\<lambda>b. strip b \<noteq> []) (split_nl ch))\<rparr>]\<rparr>"
proof -
  have "foldl add_bullet (clear (new_placeholder 1)) (split_nl ch) =
      \<lparr>ph_idx = 1, has_text_frame = True,
       paragraphs = new_paragraph # map bullet_paragraph (filter (\<lambda>b. strip b \<noteq> []) (split_nl ch))\<rparr>"
    using foldl_add_bullet_fields [of "clear (new_placeholder 1)" "split_nl ch"]
      foldl_add_bullet_paragraphs [of "clear (new_placeholder 1)" "split_nl ch"]
    by (simp add: clear_def new_placeholder_def new_paragraph_def)
  then show ?thesis
    by (simp add: content_slide_filled_def Let_def new_slide_def on_placeholder_def
        new_placeholder_def set_text_def on_first_paragraph_def heading_text_def)
qed

lemma title_slide_shapes:
  "title_slide topic =
     \<lparr>slide_layout = Title_Slide_layout,
      shapes =
        [\<lparr>ph_idx = 0, has_text_frame = True,
          paragraphs =
            (case map (\<lambda>l. new_paragraph\<lparr>ptext := paragraph_text l\<rparr>) (lines_of (upper topic)) of
               [] \<Rightarrow> [] | p # ps \<Rightarrow> p\<lparr>font_bold := Some True\<rparr> # ps)\<rparr>,
         \<lparr>ph_idx = 1, has_text_frame = True, paragraphs = [new_paragraph]\<rparr>]\<rparr>"
  by (simp add: title_slide_def Let_def new_slide_def on_placeholder_def
      new_placeholder_def set_text_def on_first_paragraph_def)

lemma map_ptext_first:
  "(\<And>p. ptext (f p) = ptext p) \<Longrightarrow>
   map ptext (case ps of [] \<Rightarrow> [] | p # r \<Rightarrow> f p # r) = map ptext ps"
  by (cases ps) auto

lemma length_first:
  "length (case ps of [] \<Rightarrow> [] | p # r \<Rightarrow> f p # r) = length ps"
  by (cases ps) auto

lemma heading_content_slide:
  "heading (content_slide t f ch) = escape_ctrl_chars (cp (heading_text t f))"
proof -
  have "map ptext (map (\<lambda>p. p\<lparr>font_size := Some SLIDE_FONT_SIZE\<rparr>)
          (case map (\<lambda>l. new_paragraph\<lparr>ptext := paragraph_text l\<rparr>)
                  (lines_of (cp (heading_text t f))) of
             [] \<Rightarrow> [] | p # ps \<Rightarrow> p\<lparr>font_size := Some TITLE_FONT_SIZE\<rparr> # ps)) =
        map paragraph_text (lines_of (cp (heading_text t f)))"
    by (simp add: comp_def map_ptext_first [where f = "\<lambda>p. p\<lparr>font_size := Some TITLE_FONT_SIZE\<rparr>"])
  then show ?thesis
    by (simp add: content_slide_def content_slide_filled_shapes set_slide_font_size_def
        heading_def placeholder_def get_text_def unlines_paragraph_texts del: map_map)
qed

lemma heading_title_slide: "heading (title_slide topic) = escape_ctrl_chars (upper topic)"
proof -
  have "map ptext
          (case map (\<lambda>l. new_paragraph\<lparr>ptext := paragraph_text l\<rparr>) (lines_of (upper topic)) of
             [] \<Rightarrow> [] | p # ps \<Rightarrow> p\<lparr>font_bold := Some True\<rparr> # ps) =
        map paragraph_text (lines_of (upper topic))"
    by (simp add: comp_def map_ptext_first [where f = "\<lambda>p. p\<lparr>font_bold := Some True\<rparr>"])
  then show ?thesis
    by (simp add: title_slide_shapes heading_def placeholder_def get_text_def
        unlines_paragraph_texts del: map_map)
qed

lemma title_paragraphs_content_slide:
  "map font_size (title_paragraphs (content_slide t f ch)) =
     replicate (length (lines_of (cp (heading_text t f)))) (Some SLIDE_FONT_SIZE)"
  by (simp add: content_slide_def content_slide_filled_shapes set_slide_font_size_def
      title_paragraphs_def placeholder_def comp_def map_replicate_const length_first)

lemma body_paragraphs_content_slide:
  "body_paragraphs (content_slide t f ch) =
     map (\<lambda>p. p\<lparr>font_size := Some SLIDE_FONT_SIZE\<rparr>)
       (new_paragraph # map bullet_paragraph (filter (\<lambda>b. strip b \<noteq> []) (split_nl ch)))"
  by (simp add: content_slide_def content_slide_filled_shapes set_slide_font_size_def
      body_paragraphs_def placeholder_def)

lemma body_texts_content_slide:
  "map ptext (body_paragraphs (content_slide t f ch)) = expected_body ch"
  by (simp add: body_paragraphs_content_slide expected_body_def comp_def
      bullet_paragraph_def new_paragraph_def)

lemma slide_texts_content_slide:
  "slide_texts (content_slide t f ch) =
     (escape_ctrl_chars (cp (heading_text t f)), expected_body ch)"
  by (simp only: slide_texts_def heading_content_slide body_texts_content_slide)

lemma slide_layout_content_slide: "slide_layout (content_slide t f ch) = Title_and_Content_layout"
  by (simp add: content_slide_def content_slide_filled_shapes set_slide_font_size_def)

lemma slide_layout_title_slide: "slide_layout (title_slide topic) = Title_Slide_layout"
  by (simp add: title_slide_shapes)

lemma slide_texts_section: "map slide_texts (section_slides t c) = expected_section t c"
proof -
  have "(\<lambda>(i::nat, ch). slide_texts (content_slide t (i = 0) ch)) =
      (\<lambda>(i, ch). (expected_heading t i, expected_body ch))"
    by (auto simp: slide_texts_content_slide heading_text_def expected_heading_def fun_eq_iff)
  then show ?thesis
    by (simp add: section_slides_enumerate expected_section_def comp_def case_prod_unfold)
qed

lemma slide_texts_sections:
  "map slide_texts (concat (map (\<lambda>(t, c). section_slides t c) ps)) =
     concat (map (\<lambda>(t, c). expected_section t c) ps)"
  by (induction ps) (auto simp: slide_texts_section)

lemma slide_texts_deck:
  "map slide_texts (tl (prs (create_presentation os w topic ts cs))) =
     concat (map (\<lambda>(t, c). expected_section t c) (zip ts cs))"
  by (simp add: prs_create_presentation slide_texts_sections)

lemma slide_layout_section:
  "map slide_layout (section_slides t c) =
     replicate (length (split_content_into_slides c)) Title_and_Content_layout"
  by (simp add: section_slides_enumerate comp_def case_prod_unfold slide_layout_content_slide
      map_replicate_const)

lemma slide_layout_sections:
  "map slide_layout (concat (map (\<lambda>(t, c). section_slides t c) ps)) =
     replicate (length (concat (map (\<lambda>(t, c). section_slides t c) ps))) Title_and_Content_layout"
proof (induction ps)
  case Nil
  show ?case by simp
next
  case (Cons p ps)
  obtain t c where p: "p = (t, c)" by (cases p)
  have "length (section_slides t c) = length (split_content_into_slides c)"
    by (simp add: section_slides_enumerate)
  with Cons show ?case by (simp add: p slide_layout_section replicate_add)
qed

lemma slide_layout_deck:
  "map slide_layout (prs (create_presentation os w topic ts cs)) =
     Title_Slide_layout #
     replicate (length (prs (create_presentation os w topic ts cs)) - 1) Title_and_Content_layout"
  by (simp add: prs_create_presentation slide_layout_title_slide slide_layout_sections)

subsection \<open>The claims about the deck\<close>

lemma split_content_x: "split_content_into_slides ''x'' = [''x'']"
  by (simp add: split_content_into_slides_def paginate_step_def MAX_BULLETS_PER_SLIDE_def
      Let_def star_def newline_def)

lemma split_content_y: "split_content_into_slides ''y'' = [''y'']"
  by (simp add: split_content_into_slides_def paginate_step_def MAX_BULLETS_PER_SLIDE_def
      Let_def star_def newline_def)


text \<open>
  Claim C1. Every slide title, the title slide's included, is to have size 30pt and every
  body paragraph 16pt. For the topic \<open>A\<close> with the one section \<open>T\<close> of content \<open>x\<close>:
  line 92 gives the title of the content slide 30pt, the loop over the shapes that follows
  (lines 93 to 96) reaches the title placeholder too and leaves it at 16pt, and the title
  of the title slide is never given a size.
\<close>

theorem title_font_size_overwritten:
  "map font_size (title_paragraphs (content_slide_filled ''T'' True ''x'')) = [Some (Pt 30)]
   \<and> map font_size (title_paragraphs (prs (create_presentation os w ''A'' [''T''] [''x'']) ! 1)) = [Some (Pt 16)]
   \<and> map font_size (title_paragraphs (prs (create_presentation os w ''A'' [''T''] [''x'']) ! 0)) = [None]"
proof (intro conjI)
  show "map font_size (title_paragraphs (content_slide_filled ''T'' True ''x'')) = [Some (Pt 30)]"
    by (simp add: content_slide_filled_shapes title_paragraphs_def placeholder_def
        heading_text_def cp_def TITLE_FONT_SIZE_def)
  have deck: "prs (create_presentation os w ''A'' [''T''] [''x'']) =
      [title_slide ''A'', content_slide ''T'' True ''x'']"
    by (simp add: prs_create_presentation section_slides_enumerate split_content_x)
  show "map font_size (title_paragraphs (prs (create_presentation os w ''A'' [''T''] [''x'']) ! 1)) = [Some (Pt 16)]"
    by (simp add: deck title_paragraphs_content_slide heading_text_def cp_def
        SLIDE_FONT_SIZE_def)
  show "map font_size (title_paragraphs (prs (create_presentation os w ''A'' [''T''] [''x'']) ! 0)) = [None]"
    by (simp add: deck title_slide_shapes title_paragraphs_def placeholder_def upper_def
        upper_char_def new_paragraph_def)
qed



lemma zip_take_min:
  "zip (take (min (length xs) (length ys)) xs) (take (min (length xs) (length ys)) ys) = zip xs ys"
proof (induction xs arbitrary: ys)
  case Nil
  show ?case by simp
next
  case (Cons x xs)
  then show ?case by (cases ys) simp_all
qed

lemma escape_cp_T1: "escape_ctrl_chars (cp ''T1'') = cp ''T1''"
  by (simp add: cp_def escape_ctrl_chars_def escape_char_def escaped_def)

lemma escape_cp_T2: "escape_ctrl_chars (cp ''T2'') = cp ''T2''"
  by (simp add: cp_def escape_ctrl_chars_def escape_char_def escaped_def)

lemma heading_title_A: "heading (title_slide ''A'') = cp ''A''"
  by (simp add: heading_title_slide upper_def upper_char_def cp_def escape_ctrl_chars_def
      escape_char_def escaped_def)

text \<open>
  Claim C7. Titles and contents of different lengths: the content slides of the deck, read
  by their headings and body texts, are those of the first
  \<open>min (length slide_titles) (length slide_contents)\<close> pairs, in order, and the elements
  behind them in the longer list change nothing in the run. With three titles and two
  contents the deck has the title slide and one slide for each of the first two titles;
  with one title and three contents, the title slide and one slide.
\<close>

theorem zip_truncates:
  "map slide_texts (tl (prs (create_presentation os w topic slide_titles slide_contents))) =
     concat (map (\<lambda>(t, c). expected_section t c)
       (zip (take (min (length slide_titles) (length slide_contents)) slide_titles)
            (take (min (length slide_titles) (length slide_contents)) slide_contents)))
   \<and> create_presentation os w topic slide_titles slide_contents =
       create_presentation os w topic
         (take (min (length slide_titles) (length slide_contents)) slide_titles)
         (take (min (length slide_titles) (length slide_contents)) slide_contents)
   \<and> map slide_texts (prs (create_presentation os w ''A'' [''T1'', ''T2'', ''T3''] [''x'', ''y''])) =
       [(cp ''A'', [[]]), (cp ''T1'', [[], cp ''x'']), (cp ''T2'', [[], cp ''y''])]
   \<and> map slide_texts (prs (create_presentation os w ''A'' [''T1''] [''x'', ''y'', ''z''])) =
       [(cp ''A'', [[]]), (cp ''T1'', [[], cp ''x''])]"
proof (intro conjI)
  show "map slide_texts (tl (prs (create_presentation os w topic slide_titles slide_contents))) =
     concat (map (\<lambda>(t, c). expected_section t c)
       (zip (take (min (length slide_titles) (length slide_contents)) slide_titles)
            (take (min (length slide_titles) (length slide_contents)) slide_contents)))"
    by (simp only: slide_texts_deck zip_take_min)
  show "create_presentation os w topic slide_titles slide_contents =
       create_presentation os w topic
         (take (min (length slide_titles) (length slide_contents)) slide_titles)
         (take (min (length slide_titles) (length slide_contents)) slide_contents)"
    by (simp only: create_presentation_def zip_take_min)
  have title: "slide_texts (title_slide ''A'') = (cp ''A'', [[]])"
    by (simp add: slide_texts_def heading_title_A)
       (simp add: title_slide_shapes body_paragraphs_def placeholder_def new_paragraph_def)
  have x: "expected_body ''x'' = [[], cp ''x'']" and y: "expected_body ''y'' = [[], cp ''y'']"
    by (simp_all add: expected_body_def newline_def strip_def is_space_def paragraph_text_def
        cp_def escape_ctrl_chars_def escape_char_def escaped_def)
  have sx: "expected_section ''T1'' ''x'' = [(cp ''T1'', [[], cp ''x''])]"
    by (simp add: expected_section_def split_content_x expected_heading_def escape_cp_T1 x)
  have sy: "expected_section ''T2'' ''y'' = [(cp ''T2'', [[], cp ''y''])]"
    by (simp add: expected_section_def split_content_y expected_heading_def escape_cp_T2 y)
  show "map slide_texts (prs (create_presentation os w ''A'' [''T1'', ''T2'', ''T3''] [''x'', ''y''])) =
       [(cp ''A'', [[]]), (cp ''T1'', [[], cp ''x'']), (cp ''T2'', [[], cp ''y''])]"
    by (simp add: prs_create_presentation title slide_texts_section sx sy)
  show "map slide_texts (prs (create_presentation os w ''A'' [''T1''] [''x'', ''y'', ''z''])) =
       [(cp ''A'', [[]]), (cp ''T1'', [[], cp ''x''])]"
    by (simp add: prs_create_presentation title slide_texts_section sx)
qed


lemma map_heading_section:
  "map heading (section_slides t c) =
     escape_ctrl_chars (cp t) #
     replicate (length (split_content_into_slides c) - 1)
       (escape_ctrl_chars (cp (t @ '' (contd.)'')))"
  using split_content_into_slides_nonempty [of c]
  by (cases "split_content_into_slides c")
     (simp_all add: section_slides_enumerate enumerate_flags heading_content_slide
        heading_text_def comp_def map_replicate_const)



lemma seven_lines:
  "length (split_nl c) = 7 \<Longrightarrow>
   map (\<lambda>ch. length (split_nl ch)) (split_content_into_slides c) = [6, 1]"
  unfolding chunk_sizes MAX_BULLETS_PER_SLIDE_def by (rule groups_of_7) simp

lemma seven_lines_chunks:
  assumes "length (split_nl c) = 7"
  shows "length (split_content_into_slides c) = 2"
proof -
  have "length (map (\<lambda>ch. length (split_nl ch)) (split_content_into_slides c)) = 2"
    by (simp only: seven_lines [OF assms]) simp
  then show ?thesis by simp
qed


lemma body_length_content_slide:
  "length (body_paragraphs (content_slide t f ch)) - 1 =
     length (filter (\<lambda>b. strip b \<noteq> []) (split_nl ch))"
  by (simp add: body_paragraphs_content_slide)

lemma map_snd_enumerate_fun: "map (\<lambda>x. F (snd x)) (enumerate n xs) = map F xs"
  by (induction xs arbitrary: n) auto

lemma bullets_section:
  "map (\<lambda>s. length (body_paragraphs s) - 1) (section_slides t c) =
     map (\<lambda>ch. length (filter (\<lambda>b. strip b \<noteq> []) (split_nl ch))) (split_content_into_slides c)"
proof -
  have "map (\<lambda>s. length (body_paragraphs s) - 1) (section_slides t c) =
      map (\<lambda>x. length (filter (\<lambda>b. strip b \<noteq> []) (split_nl (snd x))))
        (enumerate 0 (split_content_into_slides c))"
    by (simp add: section_slides_enumerate comp_def case_prod_unfold body_length_content_slide
        del: One_nat_def)
  also have "\<dots> =
      map (\<lambda>ch. length (filter (\<lambda>b. strip b \<noteq> []) (split_nl ch))) (split_content_into_slides c)"
    by (rule map_snd_enumerate_fun)
  finally show ?thesis .
qed

lemma no_blank_chunk:
  assumes nb: "filter (\<lambda>l. strip (clean_text l) = []) (split_nl c) = []"
    and ch: "ch \<in> set (split_content_into_slides c)"
  shows "filter (\<lambda>b. strip b \<noteq> []) (split_nl ch) = split_nl ch"
proof -
  have pos: "0 < MAX_BULLETS_PER_SLIDE" by (simp add: MAX_BULLETS_PER_SLIDE_def)
  from ch have "split_nl ch \<in> set (map split_nl (split_content_into_slides c))" by simp
  then have "split_nl ch \<in> set (groups_of MAX_BULLETS_PER_SLIDE (map clean_text (split_nl c)))"
    by (simp only: split_chunks)
  from groups_of_chunks [OF pos this]
  have sub: "set (split_nl ch) \<subseteq> set (map clean_text (split_nl c))" by simp
  have "strip b \<noteq> []" if "b \<in> set (split_nl ch)" for b
  proof -
    from that sub obtain l where "l \<in> set (split_nl c)" and "b = clean_text l" by auto
    with nb show ?thesis by (auto simp: filter_empty_conv)
  qed
  then show ?thesis by (simp add: filter_id_conv)
qed

lemma no_blank_bullets:
  assumes "filter (\<lambda>l. strip (clean_text l) = []) (split_nl c) = []"
  shows "map (\<lambda>s. length (body_paragraphs s) - 1) (section_slides t c) =
     map (\<lambda>ch. length (split_nl ch)) (split_content_into_slides c)"
  unfolding bullets_section
  by (rule map_cong [OF refl]) (simp add: no_blank_chunk [OF assms])

text \<open>
  Claim C10. The first slide of the deck is the title slide, the only one of its layout,
  with the topic in upper case as its heading. Behind it come the slides of the sections,
  in the order of the titles, each section's slides in the order of its chunks: read by
  their headings and body texts they are what the sections are to look like. Two
  sections of 7 lines each give 5 slides, each section a slide with its title and one
  with its title followed by \<^verbatim>\<open> (contd.)\<close>, from chunks of 6 and 1 lines; where no cleaned
  line is blank, their bodies hold 6 and 1 bullets.
\<close>

theorem deck_order:
  "map slide_layout (prs (create_presentation os w topic slide_titles slide_contents)) =
     Title_Slide_layout #
     replicate (length (prs (create_presentation os w topic slide_titles slide_contents)) - 1)
       Title_and_Content_layout
   \<and> heading (hd (prs (create_presentation os w topic slide_titles slide_contents))) =
       escape_ctrl_chars (upper topic)
   \<and> map slide_texts (tl (prs (create_presentation os w topic slide_titles slide_contents))) =
       concat (map (\<lambda>(t, c). expected_section t c) (zip slide_titles slide_contents))
   \<and> (length (split_nl c1) = 7 \<and> length (split_nl c2) = 7 \<longrightarrow>
        length (prs (create_presentation os w topic [t1, t2] [c1, c2])) = 5
        \<and> map heading (tl (prs (create_presentation os w topic [t1, t2] [c1, c2]))) =
            [escape_ctrl_chars (cp t1), escape_ctrl_chars (cp (t1 @ '' (contd.)'')),
             escape_ctrl_chars (cp t2), escape_ctrl_chars (cp (t2 @ '' (contd.)''))]
        \<and> map (\<lambda>ch. length (split_nl ch)) (split_content_into_slides c1) = [6, 1]
        \<and> map (\<lambda>ch. length (split_nl ch)) (split_content_into_slides c2) = [6, 1])
   \<and> (length (split_nl c1) = 7 \<and> length (split_nl c2) = 7
        \<and> filter (\<lambda>l. strip (clean_text l) = []) (split_nl c1 @ split_nl c2) = [] \<longrightarrow>
        map (\<lambda>s. length (body_paragraphs s) - 1)
          (tl (prs (create_presentation os w topic [t1, t2] [c1, c2]))) = [6, 1, 6, 1])"
proof (intro conjI impI)
  show "map slide_layout (prs (create_presentation os w topic slide_titles slide_contents)) =
     Title_Slide_layout #
     replicate (length (prs (create_presentation os w topic slide_titles slide_contents)) - 1)
       Title_and_Content_layout"
    by (rule slide_layout_deck)
  show "heading (hd (prs (create_presentation os w topic slide_titles slide_contents))) =
       escape_ctrl_chars (upper topic)"
    by (simp add: prs_create_presentation heading_title_slide)
  show "map slide_texts (tl (prs (create_presentation os w topic slide_titles slide_contents))) =
       concat (map (\<lambda>(t, c). expected_section t c) (zip slide_titles slide_contents))"
    by (rule slide_texts_deck)
next
  assume h: "length (split_nl c1) = 7 \<and> length (split_nl c2) = 7"
  then have s1: "map (\<lambda>ch. length (split_nl ch)) (split_content_into_slides c1) = [6, 1]"
    and s2: "map (\<lambda>ch. length (split_nl ch)) (split_content_into_slides c2) = [6, 1]"
    by (simp_all add: seven_lines)
  from h have l1: "length (split_content_into_slides c1) = 2"
    and l2: "length (split_content_into_slides c2) = 2"
    by (simp_all add: seven_lines_chunks)
  show "map (\<lambda>ch. length (split_nl ch)) (split_content_into_slides c1) = [6, 1]" by (rule s1)
  show "map (\<lambda>ch. length (split_nl ch)) (split_content_into_slides c2) = [6, 1]" by (rule s2)
  show "length (prs (create_presentation os w topic [t1, t2] [c1, c2])) = 5"
    by (simp add: prs_create_presentation section_slides_enumerate l1 l2)
  show "map heading (tl (prs (create_presentation os w topic [t1, t2] [c1, c2]))) =
            [escape_ctrl_chars (cp t1), escape_ctrl_chars (cp (t1 @ '' (contd.)'')),
             escape_ctrl_chars (cp t2), escape_ctrl_chars (cp (t2 @ '' (contd.)''))]"
    by (simp add: prs_create_presentation map_heading_section l1 l2)
next
  assume h: "length (split_nl c1) = 7 \<and> length (split_nl c2) = 7
        \<and> filter (\<lambda>l. strip (clean_text l) = []) (split_nl c1 @ split_nl c2) = []"
  then have n1: "filter (\<lambda>l. strip (clean_text l) = []) (split_nl c1) = []"
    and n2: "filter (\<lambda>l. strip (clean_text l) = []) (split_nl c2) = []" by simp_all
  from h have s1: "map (\<lambda>ch. length (split_nl ch)) (split_content_into_slides c1) = [6, 1]"
    and s2: "map (\<lambda>ch. length (split_nl ch)) (split_content_into_slides c2) = [6, 1]"
    by (simp_all add: seven_lines)
  have "map (\<lambda>s. length (body_paragraphs s) - 1)
          (tl (prs (create_presentation os w topic [t1, t2] [c1, c2]))) =
        map (\<lambda>s. length (body_paragraphs s) - 1) (section_slides t1 c1) @
        map (\<lambda>s. length (body_paragraphs s) - 1) (section_slides t2 c2)"
    by (simp add: prs_create_presentation del: One_nat_def)
  also have "\<dots> = [6, 1] @ [6, 1]"
    by (simp only: no_blank_bullets [OF n1] no_blank_bullets [OF n2] s1 s2)
  finally show "map (\<lambda>s. length (body_paragraphs s) - 1)
          (tl (prs (create_presentation os w topic [t1, t2] [c1, c2]))) = [6, 1, 6, 1]"
    by simp
qed

theorem deck_order_witness:
  "length (split_nl ''a\<newline>b\<newline>c\<newline>d\<newline>e\<newline>f\<newline>g'') = 7
   \<and> filter (\<lambda>l. strip (clean_text l) = [])
        (split_nl ''a\<newline>b\<newline>c\<newline>d\<newline>e\<newline>f\<newline>g'' @ split_nl ''a\<newline>b\<newline>c\<newline>d\<newline>e\<newline>f\<newline>g'') = []
   \<and> length (prs (create_presentation example_os \<lparr>dirs = [], files = []\<rparr> ''Rust Ownership''
        [''Borrowing'', ''Lifetimes'']
        [''a\<newline>b\<newline>c\<newline>d\<newline>e\<newline>f\<newline>g'', ''a\<newline>b\<newline>c\<newline>d\<newline>e\<newline>f\<newline>g''])) = 5
   \<and> map heading (prs (create_presentation example_os \<lparr>dirs = [], files = []\<rparr> ''Rust Ownership''
        [''Borrowing'', ''Lifetimes'']
        [''a\<newline>b\<newline>c\<newline>d\<newline>e\<newline>f\<newline>g'', ''a\<newline>b\<newline>c\<newline>d\<newline>e\<newline>f\<newline>g''])) =
       [cp ''RUST OWNERSHIP'', cp ''Borrowing'', cp ''Borrowing (contd.)'', cp ''Lifetimes'',
        cp ''Lifetimes (contd.)'']
   \<and> map (\<lambda>s. length (body_paragraphs s) - 1)
        (tl (prs (create_presentation example_os \<lparr>dirs = [], files = []\<rparr> ''Rust Ownership''
          [''Borrowing'', ''Lifetimes'']
          [''a\<newline>b\<newline>c\<newline>d\<newline>e\<newline>f\<newline>g'', ''a\<newline>b\<newline>c\<newline>d\<newline>e\<newline>f\<newline>g'']))) = [6, 1, 6, 1]"
proof -
  let ?c = "''a\<newline>b\<newline>c\<newline>d\<newline>e\<newline>f\<newline>g''"
  let ?deck = "prs (create_presentation example_os \<lparr>dirs = [], files = []\<rparr> ''Rust Ownership''
        [''Borrowing'', ''Lifetimes''] [?c, ?c])"
  have h1: "length (split_nl ?c) = 7" by (simp add: newline_def)
  have h2: "filter (\<lambda>l. strip (clean_text l) = []) (split_nl ?c @ split_nl ?c) = []"
    by (simp add: newline_def star_def strip_def is_space_def)
  note d = deck_order [of example_os "\<lparr>dirs = [], files = []\<rparr>" "''Rust Ownership''"
      "[''Borrowing'', ''Lifetimes'']" "[?c, ?c]" ?c ?c "''Borrowing''" "''Lifetimes''"]
  from d h1 have len: "length ?deck = 5" by blast
  from d h1 have tlh: "map heading (tl ?deck) =
            [escape_ctrl_chars (cp ''Borrowing''), escape_ctrl_chars (cp (''Borrowing'' @ '' (contd.)'')),
             escape_ctrl_chars (cp ''Lifetimes''), escape_ctrl_chars (cp (''Lifetimes'' @ '' (contd.)''))]"
    by blast
  from d have hdh: "heading (hd ?deck) = escape_ctrl_chars (upper ''Rust Ownership'')" by blast
  from d h1 h2 have bul: "map (\<lambda>s. length (body_paragraphs s) - 1) (tl ?deck) = [6, 1, 6, 1]"
    by blast
  from len obtain s ss where deck: "?deck = s # ss" by (cases ?deck) auto
  have e1: "escape_ctrl_chars (upper ''Rust Ownership'') = cp ''RUST OWNERSHIP''"
    by (simp add: upper_def upper_char_def cp_def escape_ctrl_chars_def escape_char_def escaped_def)
  have e2: "escape_ctrl_chars (cp ''Borrowing'') = cp ''Borrowing''"
    "escape_ctrl_chars (cp ''Borrowing (contd.)'') = cp ''Borrowing (contd.)''"
    "escape_ctrl_chars (cp ''Lifetimes'') = cp ''Lifetimes''"
    "escape_ctrl_chars (cp ''Lifetimes (contd.)'') = cp ''Lifetimes (contd.)''"
    by (simp_all add: cp_def escape_ctrl_chars_def escape_char_def escaped_def)
  from hdh tlh deck have "map heading ?deck =
      [cp ''RUST OWNERSHIP'', cp ''Borrowing'', cp ''Borrowing (contd.)'', cp ''Lifetimes'',
        cp ''Lifetimes (contd.)'']"
    by (simp add: e1 e2)
  with h1 h2 len bul show ?thesis by blast
qed

section \<open>What clean\_text replaces\<close>

text \<open>
  \<open>has_dstar s\<close>: the text holds two stars in a row somewhere.
\<close>

fun has_dstar :: "string \<Rightarrow> bool" where
  "has_dstar [] = False"
| "has_dstar (c # cs) = ((c = star \<and> cs \<noteq> [] \<and> hd cs = star) \<or> has_dstar cs)"

lemma star_not_newline: "star \<noteq> newline"
  by (simp add: star_def newline_def)

lemma find_close_nearest:
  "newline \<notin> set g \<Longrightarrow> \<not> has_dstar (g @ [star]) \<Longrightarrow>
   find_close (g @ star # star # r) = Some (g, r)"
proof (induction g)
  case Nil
  show ?case by simp
next
  case (Cons c g)
  from Cons.prems have nd: "\<not> (c = star \<and> hd (g @ [star]) = star)" and rest: "\<not> has_dstar (g @ [star])"
    by simp_all
  have "hd (g @ star # star # r) = hd (g @ [star])" by (cases g) simp_all
  with nd have "\<not> (c = star \<and> g @ star # star # r \<noteq> [] \<and> hd (g @ star # star # r) = star)"
    by simp
  moreover have "c \<noteq> newline" using Cons.prems by auto
  moreover have "find_close (g @ star # star # r) = Some (g, r)"
    using Cons.prems rest by (intro Cons.IH) simp_all
  ultimately show ?case by simp
qed

lemma find_close_no_pair:
  "\<not> has_dstar (hd (split_nl s)) \<Longrightarrow> find_close s = None"
proof (induction s)
  case Nil
  show ?case by simp
next
  case (Cons c cs)
  show ?case
  proof (cases "c = newline")
    case True
    then show ?thesis using star_not_newline by simp
  next
    case False
    with Cons.prems have nd: "\<not> (c = star \<and> hd (split_nl cs) \<noteq> [] \<and> hd (hd (split_nl cs)) = star)"
      and rest: "\<not> has_dstar (hd (split_nl cs))" by simp_all
    have "cs \<noteq> [] \<and> hd cs = star \<Longrightarrow> hd (split_nl cs) \<noteq> [] \<and> hd (hd (split_nl cs)) = star"
      using star_not_newline by (cases cs) auto
    with nd have "\<not> (c = star \<and> cs \<noteq> [] \<and> hd cs = star)" by blast
    moreover have "find_close cs = None" using rest by (rule Cons.IH)
    ultimately show ?thesis using False by simp
  qed
qed

lemma clean_text_unmatched:
  assumes "find_close s = None"
  shows "clean_text (star # star # s) = star # star # clean_text s"
proof -
  have a: "clean_text (star # star # s) = star # clean_text (star # s)"
    using assms by (simp add: clean_text_unclosed)
  have "clean_text (star # s) = star # clean_text s"
  proof (cases "s \<noteq> [] \<and> hd s = star")
    case True
    then obtain s' where s: "s = star # s'" by (cases s) auto
    with assms have "find_close s' = None" by (simp add: find_close_star_None)
    then show ?thesis using s by (simp add: clean_text_unclosed)
  next
    case False
    then show ?thesis by (intro clean_text_copy) simp
  qed
  with a show ?thesis by simp
qed

lemma clean_text_no_marker: "\<not> has_dstar s \<Longrightarrow> clean_text s = s"
proof (induction s)
  case Nil
  show ?case by simp
next
  case (Cons c cs)
  then have nm: "c \<noteq> star \<or> cs = [] \<or> hd cs \<noteq> star" and ih: "clean_text cs = cs" by auto
  from nm have "clean_text (c # cs) = c # clean_text cs" by (rule clean_text_copy)
  with ih show ?case by (simp only:)
qed

text \<open>
  Claim C6, as stated, fails on a pair that spans a line break: the opening pair of
  \<^verbatim>\<open>**a\nb**\<close> has its nearest closing pair behind the newline, which the dot of the
  pattern does not cross, and the text is returned as it is.
\<close>

theorem clean_text_pairs_counterexample:
  "\<not> has_dstar (''a\<newline>b'' @ [star])
   \<and> clean_text (star # star # ''a\<newline>b'' @ star # star # []) \<noteq> ''a\<newline>b'' @ clean_text []
   \<and> clean_text ''**a\<newline>b**'' = ''**a\<newline>b**''"
  by (simp add: star_def newline_def)

text \<open>
  Claim C6, amended. An opening pair of stars that is followed on the same line by a
  closing pair is replaced, with the nearest such closing pair, by the text between them
  (\<open>g\<close> holds no newline, and no pair of stars starts in \<open>g\<close> or at its end), and the
  scan goes on behind the closing pair; a character that is not a star, and a star that
  no star follows, are copied; an opening pair with no pair of stars behind it on its
  line is copied; a text without a pair of stars is unchanged. These equations determine
  \<open>clean_text\<close>. The two examples of the claim hold.
\<close>

theorem clean_text_pairs:
  "(newline \<notin> set g \<and> \<not> has_dstar (g @ [star]) \<longrightarrow>
      clean_text (star # star # g @ star # star # r) = g @ clean_text r)
   \<and> (c \<noteq> star \<longrightarrow> clean_text (c # t) = c # clean_text t)
   \<and> (u = [] \<or> hd u \<noteq> star \<longrightarrow> clean_text (star # u) = star # clean_text u)
   \<and> (\<not> has_dstar (hd (split_nl v)) \<longrightarrow>
        clean_text (star # star # v) = star # star # clean_text v)
   \<and> (\<not> has_dstar w \<longrightarrow> clean_text w = w)
   \<and> clean_text ''**Speed**: improves throughput'' = ''Speed: improves throughput''
   \<and> clean_text [] = []"
proof (intro conjI impI)
  assume "newline \<notin> set g \<and> \<not> has_dstar (g @ [star])"
  then have "find_close (g @ star # star # r) = Some (g, r)" by (simp add: find_close_nearest)
  then show "clean_text (star # star # g @ star # star # r) = g @ clean_text r"
    by (rule clean_text_match)
next
  assume "c \<noteq> star"
  then show "clean_text (c # t) = c # clean_text t" by (simp add: clean_text_copy)
next
  assume "u = [] \<or> hd u \<noteq> star"
  then show "clean_text (star # u) = star # clean_text u" by (intro clean_text_copy) simp
next
  assume "\<not> has_dstar (hd (split_nl v))"
  then have "find_close v = None" by (rule find_close_no_pair)
  then show "clean_text (star # star # v) = star # star # clean_text v"
    by (rule clean_text_unmatched)
next
  assume "\<not> has_dstar w"
  then show "clean_text w = w" by (rule clean_text_no_marker)
next
  show "clean_text ''**Speed**: improves throughput'' = ''Speed: improves throughput''"
    by (simp add: star_def newline_def)
  show "clean_text [] = []" by simp
qed

theorem clean_text_pairs_witness:
  "newline \<notin> set ''Speed'' \<and> \<not> has_dstar (''Speed'' @ [star])
   \<and> clean_text (star # star # ''Speed'' @ star # star # '': improves'') = ''Speed'' @ clean_text '': improves''
   \<and> CHR ''a'' \<noteq> star \<and> clean_text (CHR ''a'' # ''**b**'') = CHR ''a'' # clean_text ''**b**''
   \<and> hd ''a*'' \<noteq> star \<and> clean_text (star # ''a*'') = star # clean_text ''a*''
   \<and> \<not> has_dstar (hd (split_nl ''a*b\<newline>**c**''))
   \<and> clean_text (star # star # ''a*b\<newline>**c**'') = star # star # clean_text ''a*b\<newline>**c**''
   \<and> \<not> has_dstar ''a*b*'' \<and> clean_text ''a*b*'' = ''a*b*''"
proof -
  have h1: "newline \<notin> set ''Speed'' \<and> \<not> has_dstar (''Speed'' @ [star])"
    by (simp add: star_def newline_def)
  have h2: "CHR ''a'' \<noteq> star" by (simp add: star_def)
  have h3: "''a*'' = [] \<or> hd ''a*'' \<noteq> star" by (simp add: star_def)
  have h4: "\<not> has_dstar (hd (split_nl ''a*b\<newline>**c**''))" by (simp add: star_def newline_def)
  have h5: "\<not> has_dstar ''a*b*''" by (simp add: star_def)
  from clean_text_pairs [of "''Speed''" "'': improves''" "CHR ''a''" "''**b**''" "''a*''"
      "''a*b\<newline>**c**''" "''a*b*''"] h1 h2 h3 h4 h5
  show ?thesis by (simp del: clean_text.simps has_dstar.simps split_nl.simps)
qed

section \<open>The file name\<close>







end
